theory Spec2Isabelle
  imports Complex_Main "HOL-Library.Sublist" "HOL-Library.AList"
begin

section \<open>Python values used by the checker\<close>

text \<open>
  The module \<^verbatim>\<open>ios_triangulation_detector/__init__.py\<close> defines one class,
  \<^verbatim>\<open>IOSFilesystemChecker\<close>, with two dictionaries (\<^verbatim>\<open>timeline\<close>,
  \<^verbatim>\<open>detections\<close>) from a timestamp to a list of items. Timestamps are Python floats;
  they are modelled as real numbers, so the rounding of float arithmetic is not part of the
  model. A Python \<^verbatim>\<open>str\<close> is a \<open>string\<close>; the string operations used here
  (\<^verbatim>\<open>in\<close>, \<^verbatim>\<open>split\<close>, \<^verbatim>\<open>replace\<close>, \<^verbatim>\<open>lstrip\<close>,
  \<^verbatim>\<open>count\<close>, \<^verbatim>\<open>join\<close>) work element by element, so nothing depends on
  what one element of a string stands for.
\<close>

type_synonym timestamp = real

text \<open>An event is the tuple \<^verbatim>\<open>(event_type, detail)\<close>; a timeline entry pairs it with
  its timestamp.\<close>

type_synonym event = "string \<times> string"
type_synonym entry = "timestamp \<times> event"

text \<open>A detection is the tuple \<^verbatim>\<open>('exact', source, identifier)\<close> or
  \<^verbatim>\<open>('heuristics', event_window)\<close>: a tag and what follows it.\<close>

datatype evidence = IdentifierMatch string string | EventWindow "entry list"

type_synonym detection = "string \<times> evidence"

datatype error =
    IndexError
  | ValueError
  | RuntimeError string
  | FileNotFoundError string

text \<open>What a Python function without a value-carrying \<^verbatim>\<open>return\<close> hands back.\<close>

datatype pyret = PyNone | PyFalse

subsection \<open>String operations\<close>

text \<open>\<^verbatim>\<open>sub in s\<close>\<close>

fun contains :: "string \<Rightarrow> string \<Rightarrow> bool" where
  "contains sub [] = (sub = [])"
| "contains sub (c # cs) = (prefix sub (c # cs) \<or> contains sub cs)"

text \<open>\<^verbatim>\<open>s.split(sep)\<close> for a non-empty separator: the pieces between the
  non-overlapping occurrences of \<open>sep\<close>, found from the left. (Python raises ValueError
  on an empty separator; both separators used here are non-empty literals.)\<close>

function split_from :: "string \<Rightarrow> string \<Rightarrow> string \<Rightarrow> string list" where
  "split_from sep piece [] = [piece]"
| "split_from sep piece (c # cs) =
     (if sep \<noteq> [] \<and> prefix sep (c # cs)
      then piece # split_from sep [] (drop (length sep) (c # cs))
      else split_from sep (piece @ [c]) cs)"
  by pat_completeness auto
termination
  by (relation "measure (\<lambda>(sep, piece, s). length s)") auto

definition str_split :: "string \<Rightarrow> string \<Rightarrow> string list" where
  "str_split s sep = split_from sep [] s"

subsection \<open>The two dictionaries\<close>

text \<open>A dictionary from timestamps to lists, in insertion order of its keys.\<close>

type_synonym 'a tsmap = "(timestamp \<times> 'a list) list"

definition append_map :: "timestamp \<Rightarrow> 'a \<Rightarrow> 'a tsmap \<Rightarrow> 'a tsmap" where
  "append_map ts item m =
     (case map_of m ts of
        None \<Rightarrow> m @ [(ts, [item])]
      | Some items \<Rightarrow> AList.update ts (items @ [item]) m)"

record checker =
  timeline :: "event tsmap"
  detections :: "detection tsmap"

definition init_checker :: checker where
  "init_checker = \<lparr>timeline = [], detections = []\<rparr>"

definition append_timeline :: "timestamp \<Rightarrow> event \<Rightarrow> checker \<Rightarrow> checker" where
  "append_timeline ts item self = self\<lparr>timeline := append_map ts item (timeline self)\<rparr>"

definition append_detection :: "timestamp \<Rightarrow> detection \<Rightarrow> checker \<Rightarrow> checker" where
  "append_detection ts item self = self\<lparr>detections := append_map ts item (detections self)\<rparr>"

section \<open>run_heuristics\<close>

definition attachments_marker :: string where
  "attachments_marker = ''Library/SMS/Attachments/''"

definition file_types :: "string list" where
  "file_types = [''M'', ''C'', ''B'']"

definition net_types :: "string list" where
  "net_types = [''NetTimestamp'', ''NetUsage'', ''NetFirst'', ''NetTimestamp2'']"

text \<open>\<^verbatim>\<open>sms_attachment_directories\<close>: a dictionary from a path to the dictionary of
  the event types seen for it (its values are all True, so its keys are kept).\<close>

type_synonym dirs = "(string \<times> string list) list"

definition track :: "string \<Rightarrow> string \<Rightarrow> dirs \<Rightarrow> dirs" where
  "track path event_type ds =
     (let seen = (case map_of ds path of None \<Rightarrow> [] | Some v \<Rightarrow> v)
      in AList.update path (if event_type \<in> set seen then seen else seen @ [event_type]) ds)"

text \<open>The first loop of \<^verbatim>\<open>run_heuristics\<close>. It ends by running off the window, by the
  bare \<^verbatim>\<open>return\<close> on a path with more than two parts, or (never, see
  \<open>classify_never_raises\<close>) by an IndexError of \<^verbatim>\<open>split(...)[1]\<close>.\<close>

datatype loop_end = Raised error | Returned | Completed dirs "string set"

fun classify :: "entry list \<Rightarrow> dirs \<Rightarrow> string set \<Rightarrow> loop_end" where
  "classify [] ds event_classes = Completed ds event_classes"
| "classify ((event_timestamp, event) # rest) ds event_classes =
     (let event_type = fst event in
      if event_type \<in> set file_types then
        (let path = snd event in
         if contains attachments_marker path then
           (case str_split path attachments_marker of
              _ # after # _ \<Rightarrow>
                (let path_parts = str_split after ''/'' in
                 if length path_parts \<le> 2
                 then classify rest (track path event_type ds) event_classes
                 else Returned)
            | _ \<Rightarrow> Raised IndexError)
         else classify rest ds (insert ''file'' event_classes))
      else if event_type \<in> set net_types then
        classify rest ds (insert ''net'' event_classes)
      else if event_type = ''LocationTimeStopped'' then
        classify rest ds (insert ''location'' event_classes)
      else classify rest ds event_classes)"

definition detection_threshold :: nat where
  "detection_threshold = 2"

definition run_heuristics :: "entry list \<Rightarrow> checker \<Rightarrow> error + (pyret \<times> checker)" where
  "run_heuristics event_window self =
     (case event_window of
        [] \<Rightarrow> Inl IndexError
      | first # _ \<Rightarrow>
          (let timestamp_start = fst first in
           case classify event_window [] {} of
             Raised e \<Rightarrow> Inl e
           | Returned \<Rightarrow> Inr (PyNone, self)
           | Completed ds event_classes \<Rightarrow>
               if list_ex (\<lambda>(k, v). ''M'' \<notin> set v \<or> ''C'' \<notin> set v) ds
               then Inr (PyFalse, self)
               else
                 (let event_classes' =
                        (if length ds > 0 then insert ''sms'' event_classes else event_classes)
                  in if card event_classes' \<ge> detection_threshold
                     then Inr (PyNone,
                            append_detection timestamp_start
                              (''heuristics'', EventWindow event_window) self)
                     else Inr (PyNone, self))))"

section \<open>The sliding window of scan_filesystem\<close>

text \<open>\<^verbatim>\<open>sorted(self.timeline)\<close> are the keys in ascending order; every key is then
  looked up (the lookup of a key of the dictionary never fails, the \<open>None\<close> case is only
  there to make the lookup total).\<close>

definition expanded_timeline :: "event tsmap \<Rightarrow> entry list" where
  "expanded_timeline tmap =
     concat (map (\<lambda>k. map (\<lambda>item. (k, item))
                          (case map_of tmap k of None \<Rightarrow> [] | Some items \<Rightarrow> items))
                 (sort (map fst tmap)))"

definition events_max :: nat where
  "events_max = 10"

definition time_delta_max :: real where
  "time_delta_max = 60 * 5"

text \<open>The inner loop over \<open>j\<close>: the window is cut at the first \<open>j\<close> whose timestamp
  is more than \<open>time_delta_max\<close> after the start, and the loop is left.\<close>

function trim_window :: "timestamp \<Rightarrow> entry list \<Rightarrow> nat \<Rightarrow> entry list" where
  "trim_window timestamp_start event_window j =
     (if j < length event_window then
        (let timestamp_item = fst (event_window ! j) in
         if timestamp_item - timestamp_start > time_delta_max
         then take j event_window
         else trim_window timestamp_start event_window (Suc j))
      else event_window)"
  by pat_completeness auto
termination
  by (relation "measure (\<lambda>(t, w, j). length w - j)") auto

declare trim_window.simps [simp del]

text \<open>The window that iteration \<open>i\<close> of the outer loop passes to
  \<^verbatim>\<open>run_heuristics\<close>: the slice \<^verbatim>\<open>[i:i+events_max]\<close>, trimmed.\<close>

definition window_at :: "entry list \<Rightarrow> nat \<Rightarrow> entry list" where
  "window_at expanded i =
     (let timestamp_start = fst (expanded ! i);
          event_window = take events_max (drop i expanded)
      in trim_window timestamp_start event_window 0)"

text \<open>\<^verbatim>\<open>range(len(expanded_timeline) - events_max)\<close>; the range of a negative number
  is empty, as is \<open>[0..<n - m]\<close> for \<open>n < m\<close> on natural numbers.\<close>

definition anchors :: "entry list \<Rightarrow> nat list" where
  "anchors expanded = [0..<length expanded - events_max]"

definition evaluated_windows :: "entry list \<Rightarrow> entry list list" where
  "evaluated_windows expanded = map (window_at expanded) (anchors expanded)"

text \<open>The outer loop; the value \<^verbatim>\<open>run_heuristics\<close> returns is dropped, an exception
  it raises leaves the loop and \<^verbatim>\<open>scan_filesystem\<close>.\<close>

fun heuristics_loop :: "entry list list \<Rightarrow> checker \<Rightarrow> error + checker" where
  "heuristics_loop [] self = Inr self"
| "heuristics_loop (event_window # rest) self =
     (case run_heuristics event_window self of
        Inl e \<Rightarrow> Inl e
      | Inr (_, self') \<Rightarrow> heuristics_loop rest self')"

definition sliding_window :: "entry list \<Rightarrow> checker \<Rightarrow> error + checker" where
  "sliding_window expanded self = heuristics_loop (evaluated_windows expanded) self"

section \<open>The collectors\<close>

text \<open>What the scanned image answers to the calls of \<^verbatim>\<open>os\<close>, \<^verbatim>\<open>plistlib\<close> and
  \<^verbatim>\<open>sqlite3\<close>. \<open>None\<close> stands for a call that raises.\<close>

record stat_result =
  st_mtime :: timestamp
  st_ctime :: timestamp
  st_birthtime :: "timestamp option"

text \<open>A row of the query on DataUsage.sqlite:
  \<^verbatim>\<open>first_timestamp, proc_timestamp, procname, bundlename, pk, timestamp\<close>; a column
  that is NULL is \<open>None\<close>.\<close>

type_synonym db_row =
  "timestamp option \<times> timestamp option \<times> string option \<times> string option \<times> int option \<times> timestamp option"

record image =
  isdir :: "string \<Rightarrow> bool"
  exists :: "string \<Rightarrow> bool"
  walk :: "string \<Rightarrow> string list"
  stat :: "string \<Rightarrow> stat_result option"
  osanalytics :: "string \<Rightarrow> (string \<times> timestamp option) list option option"
  datausage :: "string \<Rightarrow> db_row list option"
  locationd_clients :: "string \<Rightarrow> (string \<times> timestamp option) list option"

text \<open>
  \<^item> \<open>walk img top\<close>: the directories \<^verbatim>\<open>os.walk(top)\<close> yields as \<^verbatim>\<open>root\<close>.
  \<^item> \<open>osanalytics img path\<close>: \<open>None\<close> if opening or parsing raises, \<open>Some None\<close> if
    the property list has no \<^verbatim>\<open>netUsageBaseline\<close>, else its packages, each with the
    value of \<^verbatim>\<open>baseline[package][0].replace(tzinfo=timezone.utc).timestamp()\<close>
    (\<open>None\<close> if evaluating it raises).
  \<^item> \<open>datausage img path\<close>: the rows of the query (\<open>None\<close> if connecting or the query
    raises).
  \<^item> \<open>locationd_clients img path\<close>: the packages of the property list, each with the
    value of its \<^verbatim>\<open>LocationTimeStopped\<close> key if it has one.
\<close>

definition os_path_join :: "string \<Rightarrow> string \<Rightarrow> string" where
  "os_path_join a b =
     (if b \<noteq> [] \<and> hd b = CHR ''/'' then b
      else if a = [] \<or> last a = CHR ''/'' then a @ b
      else a @ ''/'' @ b)"

text \<open>\<^verbatim>\<open>s.replace(old, '')\<close>\<close>

definition str_remove :: "string \<Rightarrow> string \<Rightarrow> string" where
  "str_remove s old = (if old = [] then s else concat (str_split s old))"

text \<open>\<^verbatim>\<open>s.lstrip('/')\<close>\<close>

definition lstrip_slash :: "string \<Rightarrow> string" where
  "lstrip_slash s = dropWhile (\<lambda>c. c = CHR ''/'') s"

text \<open>\<^verbatim>\<open>sep.join(parts)\<close>\<close>

fun str_join :: "string \<Rightarrow> string list \<Rightarrow> string" where
  "str_join sep [] = []"
| "str_join sep [p] = p"
| "str_join sep (p # q # ps) = p @ sep @ str_join sep (q # ps)"

text \<open>\<^verbatim>\<open>self.paths[key]\<close>; the dictionary has seven keys and is only ever indexed with
  one of them.\<close>

definition paths :: "string \<Rightarrow> string \<Rightarrow> string" where
  "paths root_path key =
     (if key = ''sms_attachments_dir'' then
        os_path_join root_path ''private/var/mobile/Library/SMS/Attachments''
      else if key = ''locationd_plist'' then
        os_path_join root_path
          ''private/var/mobile/Library/Preferences/com.apple.locationd.StatusBarIconManager.plist''
      else if key = ''facetime_plist'' then
        os_path_join root_path
          ''private/var/mobile/Library/Preferences/com.apple.imservice.ids.FaceTime.plist''
      else if key = ''imageio_plist'' then
        os_path_join root_path ''private/var/mobile/Library/Preferences/com.apple.ImageIO.plist''
      else if key = ''osanalytics_plist'' then
        os_path_join root_path
          ''private/var/mobile/Library/Preferences/com.apple.osanalytics.addaily.plist''
      else if key = ''datausage_db'' then
        os_path_join root_path ''private/var/mobile/Library/Databases/DataUsage.sqlite''
      else os_path_join root_path ''private/var/mobile/Library/Caches/locationd/clients.plist'')"

text \<open>The three \<^verbatim>\<open>append_timeline\<close> calls both file collectors make.\<close>

definition append_stat_events :: "stat_result \<Rightarrow> string \<Rightarrow> checker \<Rightarrow> checker" where
  "append_stat_events stats rel_path self =
     (let mtime = st_mtime stats;
          ctime = st_ctime stats;
          birthtime = (case st_birthtime stats of Some b \<Rightarrow> b | None \<Rightarrow> ctime)
      in append_timeline birthtime (''B'', rel_path)
           (append_timeline ctime (''C'', rel_path)
              (append_timeline mtime (''M'', rel_path) self)))"

text \<open>\<^verbatim>\<open>_check_sms_attachments\<close>: a directory whose \<^verbatim>\<open>os.stat\<close> raises is
  reported and skipped. (The \<^verbatim>\<open>os.listdir\<close> that follows the three appends only prints.)\<close>

fun sms_loop :: "image \<Rightarrow> string \<Rightarrow> string list \<Rightarrow> checker \<Rightarrow> checker" where
  "sms_loop img root_path [] self = self"
| "sms_loop img root_path (root' # rest) self =
     (let rel_path = lstrip_slash (str_remove root' root_path) in
      if count_list rel_path CHR ''/'' \<ge> 3 then sms_loop img root_path rest self
      else
        (case stat img root' of
           None \<Rightarrow> sms_loop img root_path rest self
         | Some stats \<Rightarrow> sms_loop img root_path rest (append_stat_events stats rel_path self)))"

definition check_sms_attachments :: "image \<Rightarrow> string \<Rightarrow> checker \<Rightarrow> checker" where
  "check_sms_attachments img root_path self =
     sms_loop img root_path (walk img (paths root_path ''sms_attachments_dir'')) self"

text \<open>\<^verbatim>\<open>_check_system_plists\<close>\<close>

definition plist_files :: "string list" where
  "plist_files = [''locationd_plist'', ''facetime_plist'', ''imageio_plist'']"

fun plists_loop :: "image \<Rightarrow> string \<Rightarrow> string list \<Rightarrow> checker \<Rightarrow> checker" where
  "plists_loop img root_path [] self = self"
| "plists_loop img root_path (key # rest) self =
     (let path = paths root_path key in
      if exists img path then
        (case stat img path of
           None \<Rightarrow> plists_loop img root_path rest self
         | Some stats \<Rightarrow>
             (let rel_path = lstrip_slash (str_remove path root_path);
                  parts = str_split rel_path ''/'';
                  rel_path = str_join ''/'' (drop (length parts - 2) parts)
              in plists_loop img root_path rest (append_stat_events stats rel_path self)))
      else plists_loop img root_path rest self)"

definition check_system_plists :: "image \<Rightarrow> string \<Rightarrow> checker \<Rightarrow> checker" where
  "check_system_plists img root_path self = plists_loop img root_path plist_files self"

text \<open>\<^verbatim>\<open>_check_analytics_data\<close>. Each of its three parts is wrapped in
  \<^verbatim>\<open>try ... except Exception\<close>, which prints and goes on with the next part: a loop
  in which an exception is raised is abandoned there, and what it has appended so far
  stays.\<close>

definition process_IOCs_exact :: "string list" where
  "process_IOCs_exact = [''BackupAgent'']"

definition process_IOCs_implicit :: "string list" where
  "process_IOCs_implicit =
     [''nehelper'', ''com.apple.WebKit.WebContent'', ''powerd/com.apple.datausage.diagnostics'',
      ''lockdownd/com.apple.datausage.security'']"

definition location_client_IOCs :: "string list" where
  "location_client_IOCs =
     [''com.apple.locationd.bundle-/System/Library/LocationBundles/IonosphereHarvest.bundle'',
      ''com.apple.locationd.bundle-/System/Library/LocationBundles/WRMLinkSelection.bundle'']"

definition cocoa_delta :: real where
  "cocoa_delta = 978307200.0"

text \<open>The loop over \<^verbatim>\<open>netUsageBaseline\<close>. The timestamp of a package is only
  evaluated for a package of one of the two lists.\<close>

fun baseline_loop :: "(string \<times> timestamp option) list \<Rightarrow> checker \<Rightarrow> checker" where
  "baseline_loop [] self = self"
| "baseline_loop ((package, when) # rest) self =
     (if package \<in> set process_IOCs_exact then
        (case when of
           None \<Rightarrow> self
         | Some ts \<Rightarrow>
             baseline_loop rest
               (append_timeline ts (''NetUsage'', package)
                  (append_detection ts (''exact'', IdentifierMatch ''NetUsage'' package) self)))
      else if package \<in> set process_IOCs_implicit \<or> package \<in> set process_IOCs_exact then
        (case when of
           None \<Rightarrow> self
         | Some ts \<Rightarrow> baseline_loop rest (append_timeline ts (''NetUsage'', package) self))
      else baseline_loop rest self)"

text \<open>\<^verbatim>\<open>procname in process_IOCs\<close> for a column that may be NULL.\<close>

definition name_in :: "string option \<Rightarrow> string list \<Rightarrow> bool" where
  "name_in procname names = (case procname of None \<Rightarrow> False | Some n \<Rightarrow> n \<in> set names)"

text \<open>The loop over the rows of the database. \<^verbatim>\<open>cocoa_delta + None\<close> raises
  TypeError; only the last column is tested against \<^verbatim>\<open>None\<close> before.\<close>

fun datausage_loop :: "db_row list \<Rightarrow> checker \<Rightarrow> checker" where
  "datausage_loop [] self = self"
| "datausage_loop ((first_timestamp, proc_timestamp, procname, bundlename, pk, last_timestamp) # rest)
       self =
     (let name = (case procname of None \<Rightarrow> [] | Some n \<Rightarrow> n) in
      if name_in procname process_IOCs_exact then
        (case first_timestamp of
           None \<Rightarrow> self
         | Some t1 \<Rightarrow>
             (let self1 = append_detection (cocoa_delta + t1)
                            (''exact'', IdentifierMatch ''NetFirst'' name) self
              in case proc_timestamp of
                   None \<Rightarrow> self1
                 | Some t2 \<Rightarrow>
                     (let self2 = append_detection (cocoa_delta + t2)
                                    (''exact'', IdentifierMatch ''NetTimestamp'' name) self1
                      in case last_timestamp of
                           None \<Rightarrow> datausage_loop rest self2
                         | Some t3 \<Rightarrow>
                             datausage_loop rest
                               (append_detection (cocoa_delta + t3)
                                  (''exact'', IdentifierMatch ''NetTimestamp2'' name) self2))))
      else if name_in procname process_IOCs_implicit then
        (case first_timestamp of
           None \<Rightarrow> self
         | Some t1 \<Rightarrow>
             (let self1 = append_timeline (cocoa_delta + t1) (''NetFirst'', name) self
              in case proc_timestamp of
                   None \<Rightarrow> self1
                 | Some t2 \<Rightarrow>
                     (let self2 = append_timeline (cocoa_delta + t2) (''NetTimestamp'', name) self1
                      in case last_timestamp of
                           None \<Rightarrow> datausage_loop rest self2
                         | Some t3 \<Rightarrow>
                             datausage_loop rest
                               (append_timeline (cocoa_delta + t3)
                                  (''NetTimestamp2'', name) self2))))
      else datausage_loop rest self)"

text \<open>The loop over the location clients; \<open>item\<close> is the value of the key
  \<^verbatim>\<open>LocationTimeStopped\<close> of the client's dictionary, \<open>None\<close> if it has no such key.\<close>

fun clients_loop :: "(string \<times> timestamp option) list \<Rightarrow> checker \<Rightarrow> checker" where
  "clients_loop [] self = self"
| "clients_loop ((package, item) # rest) self =
     (if package \<in> set location_client_IOCs \<and> item \<noteq> None then
        (case item of
           Some stopped \<Rightarrow>
             clients_loop rest
               (append_timeline (cocoa_delta + stopped) (''LocationTimeStopped'', package) self)
         | None \<Rightarrow> clients_loop rest self)
      else clients_loop rest self)"

definition check_osanalytics :: "image \<Rightarrow> string \<Rightarrow> checker \<Rightarrow> checker" where
  "check_osanalytics img root_path self =
     (let path = paths root_path ''osanalytics_plist'' in
      if exists img path then
        (case osanalytics img path of
           None \<Rightarrow> self
         | Some None \<Rightarrow> self
         | Some (Some baseline) \<Rightarrow> baseline_loop baseline self)
      else self)"

definition check_datausage :: "image \<Rightarrow> string \<Rightarrow> checker \<Rightarrow> checker" where
  "check_datausage img root_path self =
     (let path = paths root_path ''datausage_db'' in
      if exists img path then
        (case datausage img path of
           None \<Rightarrow> self
         | Some rows \<Rightarrow> datausage_loop rows self)
      else self)"

definition check_locationd_clients :: "image \<Rightarrow> string \<Rightarrow> checker \<Rightarrow> checker" where
  "check_locationd_clients img root_path self =
     (let path = paths root_path ''locationd_clients'' in
      if exists img path then
        (case locationd_clients img path of
           None \<Rightarrow> self
         | Some clients \<Rightarrow> clients_loop clients self)
      else self)"

definition check_analytics_data :: "image \<Rightarrow> string \<Rightarrow> checker \<Rightarrow> checker" where
  "check_analytics_data img root_path self =
     check_locationd_clients img root_path
       (check_datausage img root_path
          (check_osanalytics img root_path self))"

section \<open>scan_filesystem\<close>

text \<open>The method returns \<^verbatim>\<open>self.detections\<close>, the \<open>detections\<close> of the checker
  returned here.\<close>

definition scan_filesystem :: "image \<Rightarrow> string \<Rightarrow> checker \<Rightarrow> error + checker" where
  "scan_filesystem img root_path self =
     (if \<not> isdir img (paths root_path ''sms_attachments_dir'') then
        Inl (FileNotFoundError
               (''SMS attachments directory not found at '' @ paths root_path ''sms_attachments_dir''))
      else
        (let self1 = check_sms_attachments img root_path self;
             self2 = check_system_plists img root_path self1;
             self3 = check_analytics_data img root_path self2
         in sliding_window (expanded_timeline (timeline self3)) self3))"

section \<open>detection_to_string\<close>

definition newline :: string where
  "newline = [CHR 0x0A]"

text \<open>The loop over the events of a heuristic detection, \<open>result\<close> growing by one
  line per event.\<close>

fun events_to_string :: "entry list \<Rightarrow> string \<Rightarrow> error + string" where
  "events_to_string [] result = Inr result"
| "events_to_string ((ts, event) # rest) result =
     (let event_type = fst event in
      if event_type = ''M'' then
        events_to_string rest (result @ newline @ '' * file modification: '' @ snd event)
      else if event_type = ''C'' then
        events_to_string rest (result @ newline @ '' * file attribute change: '' @ snd event)
      else if event_type = ''B'' then
        events_to_string rest (result @ newline @ '' * file birth: '' @ snd event)
      else if event_type = ''LocationTimeStopped'' then
        events_to_string rest (result @ newline @ '' * location service stopped: '' @ snd event)
      else if event_type \<in> set net_types then
        events_to_string rest (result @ newline @ '' * traffic by process '' @ snd event)
      else Inl (RuntimeError (''Unknown detection event '' @ event_type)))"

text \<open>The result is \<open>Inr None\<close> where the method falls off its end without a
  \<^verbatim>\<open>return\<close>. A tuple of the wrong shape for its tag raises: \<^verbatim>\<open>detection[2]\<close> of
  a pair is an IndexError, and unpacking the characters of a non-empty string into
  \<^verbatim>\<open>timestamp, event\<close> is a ValueError.\<close>

definition detection_to_string :: "detection \<Rightarrow> error + string option" where
  "detection_to_string detection =
     (if fst detection = ''exact'' then
        (case snd detection of
           IdentifierMatch source ident \<Rightarrow>
             Inr (Some (''Exact match by '' @ source @ '' : '' @ ident))
         | EventWindow w \<Rightarrow> Inl IndexError)
      else if fst detection = ''heuristics'' then
        (case snd detection of
           EventWindow w \<Rightarrow>
             (case events_to_string w ''Suspicious combination of events: '' of
                Inl e \<Rightarrow> Inl e
              | Inr result \<Rightarrow> Inr (Some result))
         | IdentifierMatch source ident \<Rightarrow>
             if source = [] then Inr (Some ''Suspicious combination of events: '')
             else Inl ValueError)
      else Inr None)"

section \<open>The classification rule in the words of the specification\<close>

text \<open>
  The specification describes what \<^verbatim>\<open>run_heuristics\<close> decides by the events a window
  holds. The definitions of this section follow those words (section 4.3, steps 3 to 5);
  they are compared with the code's \<open>classify\<close> and \<open>run_heuristics\<close> below.
\<close>

text \<open>A file event whose path contains the attachment-storage marker.\<close>

definition spec_attachment_event :: "entry \<Rightarrow> bool" where
  "spec_attachment_event e =
     (case e of (ts, event_type, path) \<Rightarrow>
        event_type \<in> set file_types \<and> contains attachments_marker path)"

text \<open>The components of the path segment that follows the marker.\<close>

definition spec_parts_after_marker :: "string \<Rightarrow> string list" where
  "spec_parts_after_marker path =
     (case str_split path attachments_marker of
        _ # after # _ \<Rightarrow> str_split after ''/''
      | _ \<Rightarrow> [])"

text \<open>Step 3: a window is disqualified by an attachment event with more than 2 components
  after the marker.\<close>

definition spec_disqualified :: "entry list \<Rightarrow> bool" where
  "spec_disqualified w =
     list_ex (\<lambda>e. spec_attachment_event e \<and> length (spec_parts_after_marker (snd (snd e))) > 2) w"

text \<open>An event of the given type for exactly this path is in the window.\<close>

definition spec_seen :: "entry list \<Rightarrow> string \<Rightarrow> string \<Rightarrow> bool" where
  "spec_seen w event_type path = list_ex (\<lambda>e. snd e = (event_type, path)) w"

text \<open>Step 4: some tracked attachment path misses Modified or AttrChanged.\<close>

definition spec_incomplete :: "entry list \<Rightarrow> bool" where
  "spec_incomplete w =
     list_ex (\<lambda>e. spec_attachment_event e \<and>
                  \<not> (spec_seen w ''M'' (snd (snd e)) \<and> spec_seen w ''C'' (snd (snd e)))) w"

text \<open>Steps 3 to 5: the classes present in a window.\<close>

definition spec_file_class :: "entry list \<Rightarrow> bool" where
  "spec_file_class w =
     list_ex (\<lambda>(ts, event_type, path).
                event_type \<in> set file_types \<and> \<not> contains attachments_marker path) w"

definition spec_net_class :: "entry list \<Rightarrow> bool" where
  "spec_net_class w = list_ex (\<lambda>(ts, event_type, path). event_type \<in> set net_types) w"

definition spec_location_class :: "entry list \<Rightarrow> bool" where
  "spec_location_class w =
     list_ex (\<lambda>(ts, event_type, path). event_type = ''LocationTimeStopped'') w"

definition spec_sms_class :: "entry list \<Rightarrow> bool" where
  "spec_sms_class w =
     list_ex (\<lambda>e. spec_attachment_event e \<and>
                  spec_seen w ''M'' (snd (snd e)) \<and> spec_seen w ''C'' (snd (snd e))) w"

definition spec_other_classes :: "entry list \<Rightarrow> string set" where
  "spec_other_classes w =
     (if spec_file_class w then {''file''} else {}) \<union>
     (if spec_net_class w then {''net''} else {}) \<union>
     (if spec_location_class w then {''location''} else {})"

definition spec_classes :: "entry list \<Rightarrow> string set" where
  "spec_classes w = spec_other_classes w \<union> (if spec_sms_class w then {''sms''} else {})"

section \<open>Auxiliary notions\<close>

text \<open>The event types recorded for a path in \<^verbatim>\<open>sms_attachment_directories\<close>.\<close>

definition types_at :: "dirs \<Rightarrow> string \<Rightarrow> string set" where
  "types_at ds p = (case map_of ds p of None \<Rightarrow> {} | Some v \<Rightarrow> set v)"

text \<open>The class a single event contributes outside the attachment directories.\<close>

definition class_of :: "entry \<Rightarrow> string set" where
  "class_of e = (case e of (ts, event_type, path) \<Rightarrow>
     (if event_type \<in> set file_types \<and> \<not> contains attachments_marker path then {''file''} else {}) \<union>
     (if event_type \<in> set net_types then {''net''} else {}) \<union>
     (if event_type = ''LocationTimeStopped'' then {''location''} else {}))"

text \<open>The test of the trimming loop, negated: the event stays in the window.\<close>

definition within_span :: "timestamp \<Rightarrow> entry \<Rightarrow> bool" where
  "within_span timestamp_start e = (\<not> fst e - timestamp_start > time_delta_max)"

text \<open>The event types \<^verbatim>\<open>detection_to_string\<close> has a phrase for, the phrase of each, and
  the line one event adds to the result.\<close>

definition known_types :: "string list" where
  "known_types =
     [''M'', ''C'', ''B'', ''LocationTimeStopped'',
      ''NetTimestamp'', ''NetUsage'', ''NetFirst'', ''NetTimestamp2'']"

definition event_phrase :: "string \<Rightarrow> string" where
  "event_phrase event_type =
     (if event_type = ''M'' then '' * file modification: ''
      else if event_type = ''C'' then '' * file attribute change: ''
      else if event_type = ''B'' then '' * file birth: ''
      else if event_type = ''LocationTimeStopped'' then '' * location service stopped: ''
      else '' * traffic by process '')"

definition event_line :: "entry \<Rightarrow> string" where
  "event_line e = newline @ event_phrase (fst (snd e)) @ snd (snd e)"

definition unknown_event :: "entry \<Rightarrow> bool" where
  "unknown_event e = (fst (snd e) \<notin> set known_types)"


definition row_times :: "db_row list \<Rightarrow> timestamp set" where
  "row_times rows =
     set (concat (map (\<lambda>(first_timestamp, proc_timestamp, procname, bundlename, pk, last_timestamp).
                         List.map_filter id [first_timestamp, proc_timestamp, last_timestamp]) rows))"

definition client_times :: "(string \<times> timestamp option) list \<Rightarrow> timestamp set" where
  "client_times clients = set (List.map_filter snd clients)"

text \<open>The invariant of a checker: every event of the timeline has a known type, and every
  detection is an \<open>exact\<close> one with an identifier or a \<open>heuristics\<close> one with a window
  of events of known types.\<close>

definition timeline_ok :: "event tsmap \<Rightarrow> bool" where
  "timeline_ok tmap = list_all (\<lambda>(ts, events). list_all (\<lambda>event. fst event \<in> set known_types) events) tmap"

definition detection_ok :: "detection \<Rightarrow> bool" where
  "detection_ok d =
     (case snd d of
        IdentifierMatch source ident \<Rightarrow> fst d = ''exact''
      | EventWindow w \<Rightarrow> fst d = ''heuristics'' \<and> \<not> list_ex unknown_event w)"

definition registry_ok :: "detection tsmap \<Rightarrow> bool" where
  "registry_ok dmap = list_all (\<lambda>(ts, ds). list_all detection_ok ds) dmap"

definition checker_ok :: "checker \<Rightarrow> bool" where
  "checker_ok self = (timeline_ok (timeline self) \<and> registry_ok (detections self))"

section \<open>Properties of the string operations\<close>

lemma split_from_nonempty: "split_from sep piece s \<noteq> []"
  by (induction sep piece s rule: split_from.induct) auto

lemma split_from_contains:
  "sep \<noteq> [] \<Longrightarrow> contains sep s \<Longrightarrow> 2 \<le> length (split_from sep piece s)"
proof (induction sep piece s rule: split_from.induct)
  case (1 sep piece)
  then show ?case by simp
next
  case (2 sep piece c cs)
  show ?case
  proof (cases "prefix sep (c # cs)")
    case True
    have "split_from sep [] (drop (length sep) (c # cs)) \<noteq> []"
      by (rule split_from_nonempty)
    then have "1 \<le> length (split_from sep [] (drop (length sep) (c # cs)))"
      by (cases "split_from sep [] (drop (length sep) (c # cs))") auto
    with True "2.prems" show ?thesis by simp
  next
    case False
    with "2.prems" have "contains sep cs" by simp
    with "2.IH"(2) "2.prems" False show ?thesis by simp
  qed
qed

text \<open>Where \<^verbatim>\<open>sep in s\<close> holds, \<^verbatim>\<open>s.split(sep)\<close> has an element of index 1.\<close>

lemma str_split_contains:
  assumes "sep \<noteq> []" and "contains sep s"
  obtains a b rest where "str_split s sep = a # b # rest"
proof -
  have "2 \<le> length (str_split s sep)"
    using assms by (simp add: str_split_def split_from_contains)
  then show thesis
    by (cases "str_split s sep"; cases "tl (str_split s sep)") (auto intro: that)
qed

lemma marker_nonempty: "attachments_marker \<noteq> []"
  by (simp add: attachments_marker_def)

section \<open>Properties of run_heuristics\<close>

text \<open>One step of the loop at a file event whose path holds the marker.\<close>

lemma classify_attachment:
  assumes "event_type \<in> set file_types"
    and "contains attachments_marker path"
    and "str_split path attachments_marker = before # after # others"
  shows "classify ((ts, event_type, path) # rest) ds cls =
     (if length (str_split after ''/'') \<le> 2
      then classify rest (track path event_type ds) cls else Returned)"
  using assms by simp

text \<open>\<^verbatim>\<open>path.split('Library/SMS/Attachments/')[1]\<close> is only evaluated where the marker
  is in the path, so it never raises.\<close>

lemma classify_never_raises: "classify w ds cls \<noteq> Raised e"
proof (induction w arbitrary: ds cls)
  case Nil
  show ?case by simp
next
  case (Cons x w)
  obtain ts event_type path where x: "x = (ts, event_type, path)"
    by (cases x) auto
  show ?case
  proof (cases "event_type \<in> set file_types \<and> contains attachments_marker path")
    case True
    then obtain a b r where "str_split path attachments_marker = a # b # r"
      using marker_nonempty str_split_contains by blast
    with True show ?thesis
      unfolding x using Cons.IH by (simp add: classify_attachment del: classify.simps)
  next
    case False
    then show ?thesis
      unfolding x using Cons.IH by (auto simp: Let_def)
  qed
qed




section \<open>run_heuristics against the classification rule\<close>


lemma map_of_track:
  "map_of (track path ty ds) =
     (map_of ds)(path \<mapsto> (let seen = (case map_of ds path of None \<Rightarrow> [] | Some v \<Rightarrow> v)
                          in if ty \<in> set seen then seen else seen @ [ty]))"
  by (simp add: track_def update_conv' Let_def)

lemma types_at_track:
  "types_at (track path ty ds) p = (if p = path then insert ty (types_at ds p) else types_at ds p)"
  by (auto simp: types_at_def map_of_track Let_def split: option.splits)

lemma dom_track: "dom (map_of (track path ty ds)) = insert path (dom (map_of ds))"
  by (simp add: map_of_track)

lemma classify_other:
  assumes "\<not> (event_type \<in> set file_types \<and> contains attachments_marker path)"
  shows "classify ((ts, event_type, path) # rest) ds cls =
     classify rest ds
       ((if event_type \<in> set file_types then {''file''} else
         if event_type \<in> set net_types then {''net''} else
         if event_type = ''LocationTimeStopped'' then {''location''} else {}) \<union> cls)"
  using assms by (auto simp: Let_def)

lemma classify_cases:
  obtains (attachment) before after others where
      "event_type \<in> set file_types" "contains attachments_marker path"
      "str_split path attachments_marker = before # after # others"
    | (other) "\<not> (event_type \<in> set file_types \<and> contains attachments_marker path)"
  using marker_nonempty str_split_contains by blast

lemma classify_dirs:
  assumes "classify w ds0 cls0 = Completed ds cls"
  shows "dom (map_of ds) = dom (map_of ds0) \<union> {path. \<exists>ts ty. (ts, ty, path) \<in> set w \<and> spec_attachment_event (ts, ty, path)}"
    and "types_at ds p = types_at ds0 p \<union> {ty. \<exists>ts. (ts, ty, p) \<in> set w \<and> spec_attachment_event (ts, ty, p)}"
  using assms
proof (induction w arbitrary: ds0 cls0)
  case Nil
  { case 1 then show ?case by simp }
  { case 2 then show ?case by simp }
next
  case (Cons x w)
  obtain ts event_type path where x: "x = (ts, event_type, path)"
    by (cases x) auto
  { case 1
    show ?case
    proof (cases rule: classify_cases[of event_type path])
      case (attachment before after others)
      with 1 have *: "classify w (track path event_type ds0) cls0 = Completed ds cls"
        unfolding x by (simp add: classify_attachment del: classify.simps split: if_splits)
      have att: "spec_attachment_event (ts, event_type, path)"
        using attachment by (simp add: spec_attachment_event_def)
      show ?thesis
        unfolding Cons.IH(1)[OF *] x using att by (auto simp: dom_track)
    next
      case other
      with 1 obtain c where *: "classify w ds0 c = Completed ds cls"
        unfolding x by (simp add: classify_other del: classify.simps)
      have att: "\<not> spec_attachment_event (ts, event_type, path)"
        using other by (simp add: spec_attachment_event_def)
      show ?thesis
        unfolding Cons.IH(1)[OF *] x using att by auto
    qed }
  { case 2
    show ?case
    proof (cases rule: classify_cases[of event_type path])
      case (attachment before after others)
      with 2 have *: "classify w (track path event_type ds0) cls0 = Completed ds cls"
        unfolding x by (simp add: classify_attachment del: classify.simps split: if_splits)
      have att: "spec_attachment_event (ts, event_type, path)"
        using attachment by (simp add: spec_attachment_event_def)
      show ?thesis
        unfolding Cons.IH(2)[OF *] x using att by (auto simp: types_at_track)
    next
      case other
      with 2 obtain c where *: "classify w ds0 c = Completed ds cls"
        unfolding x by (simp add: classify_other del: classify.simps)
      have att: "\<not> spec_attachment_event (ts, event_type, path)"
        using other by (simp add: spec_attachment_event_def)
      show ?thesis
        unfolding Cons.IH(2)[OF *] x using att by auto
    qed }
qed


lemma spec_other_classes_Nil: "spec_other_classes [] = {}"
  by (simp add: spec_other_classes_def spec_file_class_def spec_net_class_def spec_location_class_def)

lemma spec_other_classes_Cons: "spec_other_classes (e # w) = class_of e \<union> spec_other_classes w"
  by (cases e) (auto simp: spec_other_classes_def spec_file_class_def spec_net_class_def
      spec_location_class_def class_of_def)

lemma classify_classes:
  assumes "classify w ds0 cls0 = Completed ds cls"
  shows "cls = cls0 \<union> spec_other_classes w"
  using assms
proof (induction w arbitrary: ds0 cls0)
  case Nil
  then show ?case by (simp add: spec_other_classes_Nil)
next
  case (Cons x w)
  obtain ts event_type path where x: "x = (ts, event_type, path)"
    by (cases x) auto
  show ?case
  proof (cases rule: classify_cases[of event_type path])
    case (attachment before after others)
    with Cons.prems have *: "classify w (track path event_type ds0) cls0 = Completed ds cls"
      unfolding x by (simp add: classify_attachment del: classify.simps split: if_splits)
    have "class_of x = {}"
      using attachment unfolding x
      by (auto simp: class_of_def file_types_def net_types_def)
    with Cons.IH[OF *] show ?thesis
      by (simp add: spec_other_classes_Cons)
  next
    case other
    let ?c = "(if event_type \<in> set file_types then {''file''} else
         if event_type \<in> set net_types then {''net''} else
         if event_type = ''LocationTimeStopped'' then {''location''} else {})"
    have *: "classify w ds0 (?c \<union> cls0) = Completed ds cls"
      using Cons.prems unfolding x classify_other[OF other] .
    have "class_of x = ?c"
      using other unfolding x
      by (auto simp: class_of_def file_types_def net_types_def)
    with Cons.IH[OF *] show ?thesis
      by (auto simp: spec_other_classes_Cons)
  qed
qed

lemma spec_parts_after_marker_eq:
  "str_split path attachments_marker = before # after # others \<Longrightarrow>
   spec_parts_after_marker path = str_split after ''/''"
  by (simp add: spec_parts_after_marker_def)

lemma classify_disqualified:
  "classify w ds0 cls0 = Returned \<longleftrightarrow> spec_disqualified w"
proof (induction w arbitrary: ds0 cls0)
  case Nil
  show ?case by (simp add: spec_disqualified_def)
next
  case (Cons x w)
  obtain ts event_type path where x: "x = (ts, event_type, path)"
    by (cases x) auto
  have dq: "spec_disqualified ((ts, event_type, path) # w) \<longleftrightarrow>
      (spec_attachment_event (ts, event_type, path) \<and> length (spec_parts_after_marker path) > 2)
        \<or> spec_disqualified w"
    by (simp add: spec_disqualified_def)
  show ?case
  proof (cases rule: classify_cases[of event_type path])
    case (attachment before after others)
    have att: "spec_attachment_event (ts, event_type, path)"
      using attachment by (simp add: spec_attachment_event_def)
    show ?thesis
      unfolding x dq using attachment att Cons.IH
      by (simp add: classify_attachment spec_parts_after_marker_eq del: classify.simps)
  next
    case other
    have att: "\<not> spec_attachment_event (ts, event_type, path)"
      using other by (simp add: spec_attachment_event_def)
    show ?thesis
      unfolding x dq classify_other[OF other] using att Cons.IH by simp
  qed
qed

lemma distinct_track: "distinct (map fst ds) \<Longrightarrow> distinct (map fst (track path ty ds))"
  by (simp add: track_def distinct_update Let_def)

lemma classify_distinct:
  assumes "classify w ds0 cls0 = Completed ds cls" and "distinct (map fst ds0)"
  shows "distinct (map fst ds)"
  using assms
proof (induction w arbitrary: ds0 cls0)
  case Nil
  then show ?case by simp
next
  case (Cons x w)
  obtain ts event_type path where x: "x = (ts, event_type, path)"
    by (cases x) auto
  show ?case
  proof (cases rule: classify_cases[of event_type path])
    case (attachment before after others)
    with Cons.prems have *: "classify w (track path event_type ds0) cls0 = Completed ds cls"
      unfolding x by (simp add: classify_attachment del: classify.simps split: if_splits)
    show ?thesis
      by (rule Cons.IH[OF *]) (simp add: distinct_track Cons.prems)
  next
    case other
    with Cons.prems obtain c where *: "classify w ds0 c = Completed ds cls"
      unfolding x by (simp add: classify_other del: classify.simps)
    show ?thesis
      by (rule Cons.IH[OF * Cons.prems(2)])
  qed
qed

lemma spec_seen_iff: "spec_seen w ty path \<longleftrightarrow> (\<exists>ts. (ts, ty, path) \<in> set w)"
  by (force simp: spec_seen_def list_ex_iff)

lemma spec_incomplete_iff:
  "spec_incomplete w \<longleftrightarrow>
     (\<exists>ts ty path. (ts, ty, path) \<in> set w \<and> spec_attachment_event (ts, ty, path) \<and>
        \<not> (spec_seen w ''M'' path \<and> spec_seen w ''C'' path))"
  by (force simp: spec_incomplete_def list_ex_iff)

lemma spec_sms_class_iff:
  "spec_sms_class w \<longleftrightarrow>
     (\<exists>ts ty path. (ts, ty, path) \<in> set w \<and> spec_attachment_event (ts, ty, path) \<and>
        spec_seen w ''M'' path \<and> spec_seen w ''C'' path)"
  by (force simp: spec_sms_class_def list_ex_iff)

lemma classify_entries:
  assumes c: "classify w [] {} = Completed ds cls"
  shows "(k, v) \<in> set ds \<longleftrightarrow>
     (\<exists>ts ty. (ts, ty, k) \<in> set w \<and> spec_attachment_event (ts, ty, k)) \<and>
     map_of ds k = Some v"
    and "map_of ds k = Some v \<Longrightarrow> ty \<in> set file_types \<Longrightarrow> ty \<in> set v \<longleftrightarrow> spec_seen w ty k"
proof -
  have d: "distinct (map fst ds)"
    using c by (rule classify_distinct) simp
  have dom: "dom (map_of ds) = {path. \<exists>ts ty. (ts, ty, path) \<in> set w \<and> spec_attachment_event (ts, ty, path)}"
    using classify_dirs(1)[OF c] by simp
  show "(k, v) \<in> set ds \<longleftrightarrow>
     (\<exists>ts ty. (ts, ty, k) \<in> set w \<and> spec_attachment_event (ts, ty, k)) \<and>
     map_of ds k = Some v"
  proof -
    have "(k, v) \<in> set ds \<longleftrightarrow> map_of ds k = Some v"
      using d by simp
    moreover have "map_of ds k = Some v \<Longrightarrow> k \<in> dom (map_of ds)"
      by auto
    ultimately show ?thesis
      unfolding dom by blast
  qed
  assume m: "map_of ds k = Some v" and f: "ty \<in> set file_types"
  then have "k \<in> dom (map_of ds)" by auto
  then have marker: "contains attachments_marker k"
    unfolding dom by (auto simp: spec_attachment_event_def)
  have "set v = {ty. \<exists>ts. (ts, ty, k) \<in> set w \<and> spec_attachment_event (ts, ty, k)}"
    using classify_dirs(2)[OF c, of k] m by (simp add: types_at_def)
  then show "ty \<in> set v \<longleftrightarrow> spec_seen w ty k"
    using marker f by (auto simp: spec_seen_iff spec_attachment_event_def)
qed

lemma M_C_file_types: "''M'' \<in> set file_types" "''C'' \<in> set file_types"
  by (simp_all add: file_types_def)

lemma classify_incomplete:
  assumes c: "classify w [] {} = Completed ds cls"
  shows "list_ex (\<lambda>(k, v). ''M'' \<notin> set v \<or> ''C'' \<notin> set v) ds \<longleftrightarrow> spec_incomplete w"
proof
  assume "list_ex (\<lambda>(k, v). ''M'' \<notin> set v \<or> ''C'' \<notin> set v) ds"
  then obtain k v where kv: "(k, v) \<in> set ds" and miss: "''M'' \<notin> set v \<or> ''C'' \<notin> set v"
    by (auto simp: list_ex_iff)
  from kv obtain ts ty where ev: "(ts, ty, k) \<in> set w" "spec_attachment_event (ts, ty, k)"
    and m: "map_of ds k = Some v"
    using classify_entries(1)[OF c] by blast
  from miss have "\<not> (spec_seen w ''M'' k \<and> spec_seen w ''C'' k)"
    using classify_entries(2)[OF c m] M_C_file_types by blast
  with ev show "spec_incomplete w"
    unfolding spec_incomplete_iff by blast
next
  assume "spec_incomplete w"
  then obtain ts ty k where ev: "(ts, ty, k) \<in> set w" "spec_attachment_event (ts, ty, k)"
    and miss: "\<not> (spec_seen w ''M'' k \<and> spec_seen w ''C'' k)"
    unfolding spec_incomplete_iff by blast
  from ev have "k \<in> dom (map_of ds)"
    using classify_dirs(1)[OF c] by auto
  then obtain v where m: "map_of ds k = Some v" by auto
  then have kv: "(k, v) \<in> set ds" by (rule map_of_SomeD)
  from miss have "''M'' \<notin> set v \<or> ''C'' \<notin> set v"
    using classify_entries(2)[OF c m] M_C_file_types by blast
  with kv show "list_ex (\<lambda>(k, v). ''M'' \<notin> set v \<or> ''C'' \<notin> set v) ds"
    by (auto simp: list_ex_iff)
qed

lemma classify_sms:
  assumes c: "classify w [] {} = Completed ds cls" and "\<not> spec_incomplete w"
  shows "length ds > 0 \<longleftrightarrow> spec_sms_class w"
proof -
  have "length ds > 0 \<longleftrightarrow> dom (map_of ds) \<noteq> {}"
    by (cases ds) auto
  also have "\<dots> \<longleftrightarrow> (\<exists>ts ty path. (ts, ty, path) \<in> set w \<and> spec_attachment_event (ts, ty, path))"
    using classify_dirs(1)[OF c] by auto
  also have "\<dots> \<longleftrightarrow> spec_sms_class w"
    using assms(2) unfolding spec_sms_class_iff spec_incomplete_iff by blast
  finally show ?thesis .
qed

lemma run_heuristics_spec:
  assumes "w \<noteq> []"
  shows "run_heuristics w self =
     (if spec_disqualified w then Inr (PyNone, self)
      else if spec_incomplete w then Inr (PyFalse, self)
      else if 2 \<le> card (spec_classes w)
        then Inr (PyNone, append_detection (fst (hd w)) (''heuristics'', EventWindow w) self)
      else Inr (PyNone, self))"
proof -
  from assms obtain first rest where w: "w = first # rest"
    by (cases w) auto
  show ?thesis
  proof (cases "classify w [] {}")
    case (Raised e)
    then show ?thesis using classify_never_raises by blast
  next
    case Returned
    then have "spec_disqualified w" by (simp add: classify_disqualified)
    with Returned show ?thesis
      by (simp add: run_heuristics_def w)
  next
    case (Completed ds cls)
    then have nd: "\<not> spec_disqualified w"
      using classify_disqualified[of w "[]" "{}"] by simp
    have cls: "cls = spec_other_classes w"
      using classify_classes[OF Completed] by simp
    note inc = classify_incomplete[OF Completed]
    show ?thesis
    proof (cases "spec_incomplete w")
      case True
      with Completed nd inc show ?thesis
        by (simp add: run_heuristics_def w)
    next
      case False
      have "(if length ds > 0 then insert ''sms'' cls else cls) = spec_classes w"
        using classify_sms[OF Completed False] cls by (auto simp: spec_classes_def)
      with Completed nd inc False show ?thesis
        by (simp add: run_heuristics_def w detection_threshold_def Let_def del: length_greater_0_conv)
    qed
  qed
qed

text \<open>Unfolding the definitions on a concrete window.\<close>

lemmas window_eval =
  spec_seen_def spec_attachment_event_def spec_disqualified_def spec_incomplete_def
  spec_parts_after_marker_def spec_file_class_def spec_net_class_def spec_location_class_def
  spec_sms_class_def spec_other_classes_def spec_classes_def
  attachments_marker_def file_types_def net_types_def str_split_def

lemmas run_eval =
  run_heuristics_def track_def append_detection_def append_map_def init_checker_def
  detection_threshold_def

text \<open>
  Claim C1, as amended. In a window where some attachment path (a path containing the
  marker) has a Modified (\<open>M\<close>) event and no AttrChanged (\<open>C\<close>) event, the \<open>sms\<close>
  class is not contributed and no detection is recorded at all, whatever classes the other
  events span: \<^verbatim>\<open>run_heuristics\<close> returns \<^verbatim>\<open>False\<close> with the checker unchanged
  (or returns at once, with the checker unchanged as well, when the window is disqualified
  by a path more than two components deep).
\<close>

theorem modified_without_attrchanged_yields_no_detection:
  assumes "(ts, ''M'', path) \<in> set event_window"
    and "contains attachments_marker path"
    and "\<not> spec_seen event_window ''C'' path"
  shows "run_heuristics event_window self =
     Inr (if spec_disqualified event_window then PyNone else PyFalse, self)"
proof -
  from assms(1) have ne: "event_window \<noteq> []" by auto
  have "spec_attachment_event (ts, ''M'', path)"
    using assms(2) by (simp add: spec_attachment_event_def file_types_def)
  with assms(1,3) have "spec_incomplete event_window"
    unfolding spec_incomplete_iff by blast
  then show ?thesis
    by (simp add: run_heuristics_spec[OF ne])
qed

theorem modified_without_attrchanged_yields_no_detection_witness:
  "run_heuristics
     [(0, ''M'', ''Library/SMS/Attachments/ff/15''),
      (1, ''M'', ''Preferences/com.apple.ImageIO.plist''),
      (2, ''NetUsage'', ''nehelper'')] \<lparr>timeline = [], detections = []\<rparr>
   = Inr (PyFalse, \<lparr>timeline = [], detections = []\<rparr>)"
proof -
  let ?w = "[(0::real, ''M'', ''Library/SMS/Attachments/ff/15''),
      (1, ''M'', ''Preferences/com.apple.ImageIO.plist''),
      (2, ''NetUsage'', ''nehelper'')]"
  have a: "(0, ''M'', ''Library/SMS/Attachments/ff/15'') \<in> set ?w" by simp
  have b: "contains attachments_marker ''Library/SMS/Attachments/ff/15''"
    by (simp add: attachments_marker_def)
  have c: "\<not> spec_seen ?w ''C'' ''Library/SMS/Attachments/ff/15''"
    by (simp add: spec_seen_def)
  have d: "\<not> spec_disqualified ?w"
    by (simp add: window_eval)
  show ?thesis
    using modified_without_attrchanged_yields_no_detection [OF a b c] d by simp
qed

text \<open>
  Claim C1 as stated fails: the window below has \<open>M\<close> and no \<open>C\<close> for an
  attachment directory, its other two events span the classes \<open>file\<close> and \<open>net\<close>,
  and \<^verbatim>\<open>run_heuristics\<close> returns \<^verbatim>\<open>False\<close> without recording a detection.
\<close>

theorem modified_only_window_counterexample:
  "spec_seen [(0, ''M'', ''Library/SMS/Attachments/76/06''),
      (1, ''B'', ''Preferences/com.apple.ImageIO.plist''),
      (2, ''NetFirst'', ''nehelper'')] ''M'' ''Library/SMS/Attachments/76/06''
   \<and> \<not> spec_seen [(0, ''M'', ''Library/SMS/Attachments/76/06''),
      (1, ''B'', ''Preferences/com.apple.ImageIO.plist''),
      (2, ''NetFirst'', ''nehelper'')] ''C'' ''Library/SMS/Attachments/76/06''
   \<and> spec_other_classes [(1, ''B'', ''Preferences/com.apple.ImageIO.plist''),
      (2, ''NetFirst'', ''nehelper'')] = {''net'', ''file''}
   \<and> run_heuristics
     [(0, ''M'', ''Library/SMS/Attachments/76/06''),
      (1, ''B'', ''Preferences/com.apple.ImageIO.plist''),
      (2, ''NetFirst'', ''nehelper'')] \<lparr>timeline = [], detections = []\<rparr>
     = Inr (PyFalse, \<lparr>timeline = [], detections = []\<rparr>)"
  by (simp add: window_eval run_eval)

text \<open>What one \<^verbatim>\<open>append_detection\<close> does to the registry: the item is added at the end
  of the list under its timestamp, and nothing else changes.\<close>

lemma map_of_append_map:
  "map_of (append_map ts item m) =
     (map_of m)(ts \<mapsto> (case map_of m ts of None \<Rightarrow> [] | Some items \<Rightarrow> items) @ [item])"
  by (auto simp: append_map_def update_conv' map_add_def fun_eq_iff split: option.splits)

lemma append_detection_records_one:
  "map_of (detections (append_detection ts d self)) =
     (map_of (detections self))
       (ts \<mapsto> (case map_of (detections self) ts of None \<Rightarrow> [] | Some ds \<Rightarrow> ds) @ [d])"
  "timeline (append_detection ts d self) = timeline self"
  by (simp_all add: append_detection_def map_of_append_map)

text \<open>
  Claim C5, as amended. For a non-empty window that is not disqualified and in which every
  tracked attachment path shows both a Modified and an AttrChanged event: if at least 2
  distinct classes among \<open>file\<close>, \<open>net\<close>, \<open>location\<close>, \<open>sms\<close> are present, exactly
  one detection \<^verbatim>\<open>('heuristics', event_window)\<close> is appended under the timestamp of the
  window's first event; if at most 1 class is present the checker is unchanged.
\<close>

theorem threshold_rule:
  assumes "event_window \<noteq> []"
    and "\<not> spec_disqualified event_window"
    and "\<not> spec_incomplete event_window"
  shows "run_heuristics event_window self =
     Inr (PyNone,
          if 2 \<le> card (spec_classes event_window)
          then append_detection (fst (hd event_window))
                 (''heuristics'', EventWindow event_window) self
          else self)"
  using assms by (simp add: run_heuristics_spec)

theorem threshold_rule_witness:
  "run_heuristics
     [(5, ''C'', ''Library/SMS/Attachments/ff/15''),
      (6, ''M'', ''Library/SMS/Attachments/ff/15''),
      (7, ''LocationTimeStopped'', ''client'')] \<lparr>timeline = [], detections = []\<rparr>
   = Inr (PyNone, \<lparr>timeline = [], detections =
       [(5, [(''heuristics'', EventWindow
          [(5, ''C'', ''Library/SMS/Attachments/ff/15''),
           (6, ''M'', ''Library/SMS/Attachments/ff/15''),
           (7, ''LocationTimeStopped'', ''client'')])])]\<rparr>)"
proof -
  let ?w = "[(5::real, ''C'', ''Library/SMS/Attachments/ff/15''),
      (6, ''M'', ''Library/SMS/Attachments/ff/15''),
      (7, ''LocationTimeStopped'', ''client'')]"
  have a: "?w \<noteq> []" by simp
  have b: "\<not> spec_disqualified ?w"
    by (simp add: window_eval)
  have c: "\<not> spec_incomplete ?w"
    by (simp add: window_eval)
  have d: "spec_classes ?w = {''sms'', ''location''}"
    by (simp add: window_eval)
  show ?thesis
    using threshold_rule [OF a b c, of "\<lparr>timeline = [], detections = []\<rparr>"]
    by (simp add: d append_detection_def append_map_def)
qed

text \<open>
  Claim C5 as stated fails: the window below is not disqualified, the classes \<open>file\<close>
  and \<open>location\<close> are present, and no detection is recorded, because its attachment
  directory has a Modified event and no AttrChanged event.
\<close>

theorem threshold_rule_counterexample:
  "\<not> spec_disqualified
       [(0, ''M'', ''Library/SMS/Attachments/a1/b2''),
        (3, ''C'', ''Preferences/com.apple.ImageIO.plist''),
        (4, ''LocationTimeStopped'', ''client'')]
   \<and> 2 \<le> card (spec_classes
       [(0, ''M'', ''Library/SMS/Attachments/a1/b2''),
        (3, ''C'', ''Preferences/com.apple.ImageIO.plist''),
        (4, ''LocationTimeStopped'', ''client'')])
   \<and> run_heuristics
       [(0, ''M'', ''Library/SMS/Attachments/a1/b2''),
        (3, ''C'', ''Preferences/com.apple.ImageIO.plist''),
        (4, ''LocationTimeStopped'', ''client'')] \<lparr>timeline = [], detections = []\<rparr>
     = Inr (PyFalse, \<lparr>timeline = [], detections = []\<rparr>)"
  by (simp add: window_eval run_eval)

section \<open>The sliding window\<close>

text \<open>The trimming loop keeps the longest prefix of the window whose events are not more
  than \<open>time_delta_max\<close> after the start.\<close>

lemma trim_window_takeWhile_aux:
  assumes "\<forall>k<j. within_span t0 (w ! k)" and "j \<le> length w"
  shows "trim_window t0 w j = takeWhile (within_span t0) w"
  using assms
proof (induction t0 w j rule: trim_window.induct)
  case (1 t0 w j)
  show ?case
  proof (cases "j < length w")
    case True
    note j = this
    show ?thesis
    proof (cases "within_span t0 (w ! j)")
      case True
      have "\<forall>k<Suc j. within_span t0 (w ! k)"
        using "1.prems"(1) True by (auto simp: less_Suc_eq)
      moreover have "Suc j \<le> length w" using j by simp
      moreover have "\<not> fst (w ! j) - t0 > time_delta_max"
        using True by (simp add: within_span_def)
      ultimately have "trim_window t0 w (Suc j) = takeWhile (within_span t0) w"
        using "1.IH"[OF j refl] by blast
      then show ?thesis
        using j True by (subst trim_window.simps) (simp add: within_span_def)
    next
      case False
      have "takeWhile (within_span t0) w = take j w"
        by (rule takeWhile_eq_take_P_nth) (use "1.prems"(1) j False in auto)
      then show ?thesis
        using j False by (subst trim_window.simps) (simp add: within_span_def)
    qed
  next
    case False
    with "1.prems" have "j = length w" by simp
    with "1.prems"(1) have "\<forall>e\<in>set w. within_span t0 e"
      by (metis in_set_conv_nth)
    then have "takeWhile (within_span t0) w = w"
      by (simp add: takeWhile_eq_all_conv)
    moreover have "trim_window t0 w j = w"
      using False by (subst trim_window.simps) simp
    ultimately show ?thesis
      by (simp only:)
  qed
qed

lemma trim_window_takeWhile:
  "trim_window t0 w 0 = takeWhile (within_span t0) w"
  by (rule trim_window_takeWhile_aux) simp_all

lemma window_at_takeWhile:
  "window_at expanded i =
     takeWhile (within_span (fst (expanded ! i))) (take events_max (drop i expanded))"
  by (simp add: window_at_def trim_window_takeWhile Let_def)

lemma anchor_in_range: "i \<in> set (anchors expanded) \<Longrightarrow> i + events_max < length expanded"
  by (auto simp: anchors_def)

text \<open>The first event of a window is its anchor: it is never trimmed away.\<close>

lemma window_at_anchor:
  assumes "i < length expanded"
  shows "\<exists>rest. window_at expanded i = expanded ! i # rest"
proof -
  have "take events_max (drop i expanded) = expanded ! i # take (events_max - 1) (drop (Suc i) expanded)"
    using assms by (simp add: events_max_def Cons_nth_drop_Suc[symmetric])
  moreover have "within_span (fst (expanded ! i)) (expanded ! i)"
    by (simp add: within_span_def time_delta_max_def)
  ultimately show ?thesis
    by (simp add: window_at_takeWhile)
qed

text \<open>The sequence the loop runs over is sorted by timestamp.\<close>

lemma sorted_concat_replicate:
  "sorted ks \<Longrightarrow> sorted (concat (map (\<lambda>k. replicate (n k) k) ks))"
  by (induction ks) (auto simp: sorted_append)

lemma sorted_expanded_timeline: "sorted (map fst (expanded_timeline tmap))"
proof -
  have "map fst (expanded_timeline tmap) =
      concat (map (\<lambda>k. replicate (length (case map_of tmap k of None \<Rightarrow> [] | Some items \<Rightarrow> items)) k)
                  (sort (map fst tmap)))"
    by (simp add: expanded_timeline_def map_concat comp_def map_replicate_const)
  then show ?thesis
    by (simp add: sorted_concat_replicate)
qed



text \<open>\<^verbatim>\<open>run_heuristics\<close> raises on the empty window only.\<close>

lemma run_heuristics_returns:
  "event_window \<noteq> [] \<Longrightarrow> \<exists>r self'. run_heuristics event_window self = Inr (r, self')"
  by (simp add: run_heuristics_spec)

lemma heuristics_loop_returns:
  "\<forall>w\<in>set ws. w \<noteq> [] \<Longrightarrow> \<exists>self'. heuristics_loop ws self = Inr self'"
proof (induction ws arbitrary: self)
  case Nil
  show ?case by simp
next
  case (Cons w ws)
  then obtain r self1 where "run_heuristics w self = Inr (r, self1)"
    using run_heuristics_returns[of w self] by auto
  with Cons show ?case by simp
qed

text \<open>
  Claim C9. Every window the sliding-window loop passes to \<^verbatim>\<open>run_heuristics\<close> is
  non-empty and starts with its anchor event, which the trimming never removes; so
  \<^verbatim>\<open>event_window[0][0]\<close> never raises IndexError there, and the loop as a whole ends
  without an exception.
\<close>

theorem evaluated_windows_nonempty:
  "(\<forall>i\<in>set (anchors expanded).
       window_at expanded i \<noteq> [] \<and> hd (window_at expanded i) = expanded ! i \<and>
       run_heuristics (window_at expanded i) self \<noteq> Inl IndexError)
   \<and> (\<exists>self'. sliding_window expanded self = Inr self')"
proof -
  have w: "window_at expanded i \<noteq> [] \<and> hd (window_at expanded i) = expanded ! i"
    if "i \<in> set (anchors expanded)" for i
  proof -
    from that have "i < length expanded"
      using anchor_in_range[of i expanded] by simp
    then obtain rest where "window_at expanded i = expanded ! i # rest"
      using window_at_anchor by blast
    then show ?thesis by simp
  qed
  have "run_heuristics (window_at expanded i) self \<noteq> Inl IndexError"
    if "i \<in> set (anchors expanded)" for i
    using run_heuristics_returns[of "window_at expanded i" self] w[OF that] by auto
  moreover have "\<forall>w\<in>set (evaluated_windows expanded). w \<noteq> []"
    using w by (auto simp: evaluated_windows_def)
  then have "\<exists>self'. sliding_window expanded self = Inr self'"
    unfolding sliding_window_def by (rule heuristics_loop_returns)
  ultimately show ?thesis
    using w by blast
qed

text \<open>Eleven events, the second one already 400 seconds after the first: the window at
  anchor 0 is trimmed down to the anchor.\<close>

theorem evaluated_windows_nonempty_witness:
  "anchors
      [(0, ''M'', ''a''), (400, ''C'', ''a''), (401, ''B'', ''a''), (402, ''M'', ''b''),
       (403, ''M'', ''c''), (404, ''M'', ''d''), (405, ''M'', ''e''), (406, ''M'', ''f''),
       (407, ''M'', ''g''), (408, ''M'', ''h''), (409, ''M'', ''i'')] = [0]
   \<and> hd (window_at
      [(0, ''M'', ''a''), (400, ''C'', ''a''), (401, ''B'', ''a''), (402, ''M'', ''b''),
       (403, ''M'', ''c''), (404, ''M'', ''d''), (405, ''M'', ''e''), (406, ''M'', ''f''),
       (407, ''M'', ''g''), (408, ''M'', ''h''), (409, ''M'', ''i'')] 0) = (0, ''M'', ''a'')
   \<and> window_at
      [(0, ''M'', ''a''), (400, ''C'', ''a''), (401, ''B'', ''a''), (402, ''M'', ''b''),
       (403, ''M'', ''c''), (404, ''M'', ''d''), (405, ''M'', ''e''), (406, ''M'', ''f''),
       (407, ''M'', ''g''), (408, ''M'', ''h''), (409, ''M'', ''i'')] 0 \<noteq> []"
proof -
  let ?E = "[(0::real, ''M'', ''a''), (400, ''C'', ''a''), (401, ''B'', ''a''), (402, ''M'', ''b''),
       (403, ''M'', ''c''), (404, ''M'', ''d''), (405, ''M'', ''e''), (406, ''M'', ''f''),
       (407, ''M'', ''g''), (408, ''M'', ''h''), (409, ''M'', ''i'')]"
  have a: "anchors ?E = [0]"
    by (simp add: anchors_def events_max_def)
  then have "0 \<in> set (anchors ?E)" by simp
  then have "window_at ?E 0 \<noteq> [] \<and> hd (window_at ?E 0) = ?E ! 0"
    using evaluated_windows_nonempty [of ?E init_checker] by blast
  with a show ?thesis by simp
qed

text \<open>The anchors of the loop are the indices \<open>i\<close> with \<open>i + events_max < len\<close>; a
  timeline of at most \<open>events_max\<close> events has none, and the loop changes nothing.\<close>

lemma anchors_range: "set (anchors expanded) = {i. i + events_max < length expanded}"
  by (auto simp: anchors_def)

lemma short_timeline_has_no_window:
  assumes "length expanded \<le> events_max"
  shows "evaluated_windows expanded = []" and "sliding_window expanded self = Inr self"
  using assms by (simp_all add: sliding_window_def evaluated_windows_def anchors_def)

text \<open>
  Claim C3, on the code. \<^verbatim>\<open>range(len(expanded_timeline) - events_max)\<close> stops one
  short of the index \<open>len - W\<close>: a timeline of exactly 10 events has no anchor, so no window
  of it is evaluated and nothing is detected, although its one full window (file and network
  events, not disqualified, not incomplete) has two classes.
\<close>

theorem window_of_exactly_ten_events_is_skipped:
  "(let expanded =
      [(0, ''M'', ''Preferences/com.apple.ImageIO.plist''),
       (1, ''C'', ''Preferences/com.apple.ImageIO.plist''),
       (2, ''B'', ''Preferences/com.apple.ImageIO.plist''),
       (3, ''NetUsage'', ''nehelper''),
       (4, ''NetFirst'', ''nehelper''),
       (5, ''NetTimestamp'', ''nehelper''),
       (6, ''NetTimestamp2'', ''nehelper''),
       (7, ''M'', ''Preferences/com.apple.imservice.ids.FaceTime.plist''),
       (8, ''C'', ''Preferences/com.apple.imservice.ids.FaceTime.plist''),
       (9, ''B'', ''Preferences/com.apple.imservice.ids.FaceTime.plist'')]
    in length expanded = events_max
       \<and> \<not> spec_disqualified expanded \<and> \<not> spec_incomplete expanded
       \<and> spec_classes expanded = {''net'', ''file''}
       \<and> anchors expanded = []
       \<and> evaluated_windows expanded = []
       \<and> sliding_window expanded init_checker = Inr init_checker)"
  by (simp add: Let_def window_eval events_max_def anchors_def evaluated_windows_def
      sliding_window_def)

section \<open>detection_to_string\<close>

text \<open>The loop stops at the first event of an unknown type, and adds one line for every
  event before.\<close>

lemma events_to_string_find:
  "events_to_string w result =
     (case find unknown_event w of
        None \<Rightarrow> Inr (result @ concat (map event_line w))
      | Some e \<Rightarrow> Inl (RuntimeError (''Unknown detection event '' @ fst (snd e))))"
proof (induction w arbitrary: result)
  case Nil
  show ?case by simp
next
  case (Cons x w)
  obtain ts event_type detail where x: "x = (ts, event_type, detail)"
    by (cases x) auto
  show ?case
  proof (cases "unknown_event x")
    case True
    then show ?thesis
      unfolding x by (simp add: unknown_event_def known_types_def net_types_def)
  next
    case False
    then have "events_to_string (x # w) result = events_to_string w (result @ event_line x)"
      unfolding x
      by (auto simp: unknown_event_def known_types_def net_types_def event_line_def event_phrase_def)
    with False show ?thesis
      by (simp add: Cons.IH split: option.splits)
  qed
qed

text \<open>
  Claim C8. For a heuristic detection whose window holds an event of a type outside
  \<open>M\<close>, \<open>C\<close>, \<open>B\<close>, \<open>LocationTimeStopped\<close>, \<open>NetTimestamp\<close>, \<open>NetUsage\<close>,
  \<open>NetFirst\<close>, \<open>NetTimestamp2\<close>, \<^verbatim>\<open>detection_to_string\<close> raises RuntimeError
  (naming such a type) and returns no string; for a window of known types only it returns
  the heading followed by one line per event, each with the phrase of the event's type and
  the event's detail.
\<close>

theorem formatter_fails_on_unknown_category:
  "(list_ex unknown_event w \<longrightarrow>
      (\<exists>event_type. event_type \<notin> set known_types \<and>
         detection_to_string (''heuristics'', EventWindow w) =
           Inl (RuntimeError (''Unknown detection event '' @ event_type))))
   \<and> (\<not> list_ex unknown_event w \<longrightarrow>
        detection_to_string (''heuristics'', EventWindow w) =
          Inr (Some (''Suspicious combination of events: '' @ concat (map event_line w))))"
proof (cases "find unknown_event w")
  case None
  then have "\<not> list_ex unknown_event w"
    by (auto simp: find_None_iff list_ex_iff)
  with None show ?thesis
    by (simp add: detection_to_string_def events_to_string_find)
next
  case (Some e)
  then have "unknown_event e" and "e \<in> set w"
    by (auto simp: find_Some_iff)
  then have "list_ex unknown_event w" and "fst (snd e) \<notin> set known_types"
    by (auto simp: list_ex_iff unknown_event_def)
  with Some show ?thesis
    by (simp add: detection_to_string_def events_to_string_find)
qed

theorem formatter_fails_on_unknown_category_witness:
  "detection_to_string (''heuristics'', EventWindow
      [(1, ''M'', ''Preferences/x.plist''), (2, ''Mystery'', ''y''), (3, ''NetUsage'', ''nehelper'')])
     \<noteq> Inr (Some (''Suspicious combination of events: '' @ concat (map event_line 
      [(1, ''M'', ''Preferences/x.plist''), (2, ''Mystery'', ''y''), (3, ''NetUsage'', ''nehelper'')])))
   \<and> detection_to_string (''heuristics'', EventWindow
      [(1, ''M'', ''Preferences/x.plist''), (3, ''NetUsage'', ''nehelper'')])
     = Inr (Some (''Suspicious combination of events: '' @
          newline @ '' * file modification: Preferences/x.plist'' @
          newline @ '' * traffic by process nehelper''))"
proof -
  let ?bad = "[(1::real, ''M'', ''Preferences/x.plist''), (2, ''Mystery'', ''y''), (3, ''NetUsage'', ''nehelper'')]"
  let ?good = "[(1::real, ''M'', ''Preferences/x.plist''), (3, ''NetUsage'', ''nehelper'')]"
  have bad: "list_ex unknown_event ?bad"
    by (simp add: unknown_event_def known_types_def)
  have good: "\<not> list_ex unknown_event ?good"
    by (simp add: unknown_event_def known_types_def)
  from bad formatter_fails_on_unknown_category [of ?bad]
  obtain event_type where "detection_to_string (''heuristics'', EventWindow ?bad) =
           Inl (RuntimeError (''Unknown detection event '' @ event_type))"
    by blast
  moreover from good formatter_fails_on_unknown_category [of ?good]
  have "detection_to_string (''heuristics'', EventWindow ?good) =
          Inr (Some (''Suspicious combination of events: '' @ concat (map event_line ?good)))"
    by blast
  ultimately show ?thesis
    by (simp add: event_line_def event_phrase_def)
qed

section \<open>The collectors of _check_analytics_data\<close>




lemma row_times_Cons:
  "row_times ((f, p, n, b, pk, l) # rows) = set (List.map_filter id [f, p, l]) \<union> row_times rows"
  by (simp add: row_times_def)

text \<open>An invariant rule for the loop over the rows of the database: whatever holds at the
  start and is kept by each append the loop can make, holds at its end (also where the loop
  is abandoned at a NULL).\<close>

lemma datausage_loop_inv:
  assumes "P self"
    and "row_times rows \<subseteq> T"
    and det: "\<And>t source name s. t \<in> T \<Longrightarrow> P s \<Longrightarrow>
           P (append_detection (cocoa_delta + t) (''exact'', IdentifierMatch source name) s)"
    and tl: "\<And>t event_type name s. t \<in> T \<Longrightarrow> event_type \<in> set net_types \<Longrightarrow> P s \<Longrightarrow>
           P (append_timeline (cocoa_delta + t) (event_type, name) s)"
  shows "P (datausage_loop rows self)"
  using assms(1,2)
proof (induction rows arbitrary: self)
  case Nil
  then show ?case by simp
next
  case (Cons row rows)
  obtain f p n b pk l where row: "row = (f, p, n, b, pk, l)"
    by (cases row) auto
  from Cons.prems(2) have sub: "row_times rows \<subseteq> T"
    and here: "\<And>t. Some t \<in> {f, p, l} \<Longrightarrow> t \<in> T"
    unfolding row row_times_Cons by (auto simp: map_filter_simps split: option.splits)
  note step = Cons.IH[OF _ sub]
  have net: "''NetFirst'' \<in> set net_types" "''NetTimestamp'' \<in> set net_types"
    "''NetTimestamp2'' \<in> set net_types"
    by (simp_all add: net_types_def)
  show ?case
  proof (cases "name_in n process_IOCs_exact")
    case True
    then show ?thesis
      unfolding row using Cons.prems(1) here
      by (auto simp: Let_def split: option.splits intro!: step det)
  next
    case False
    show ?thesis
    proof (cases "name_in n process_IOCs_implicit")
      case True
      with False show ?thesis
        unfolding row using Cons.prems(1) here net
        by (auto simp: Let_def split: option.splits intro!: step tl)
    next
      case no: False
      with False show ?thesis
        unfolding row using Cons.prems(1) by (simp add: step)
    qed
  qed
qed


lemma client_times_Cons:
  "client_times ((package, item) # clients) = set_option item \<union> client_times clients"
  by (cases item) (simp_all add: client_times_def map_filter_simps)

lemma clients_loop_inv:
  assumes "P self"
    and "client_times clients \<subseteq> T"
    and tl: "\<And>t package s. t \<in> T \<Longrightarrow> P s \<Longrightarrow>
           P (append_timeline (cocoa_delta + t) (''LocationTimeStopped'', package) s)"
  shows "P (clients_loop clients self)"
  using assms(1,2)
proof (induction clients arbitrary: self)
  case Nil
  then show ?case by simp
next
  case (Cons c clients)
  obtain package item where c: "c = (package, item)" by (cases c) auto
  from Cons.prems(2) have sub: "client_times clients \<subseteq> T"
    and here: "\<And>t. item = Some t \<Longrightarrow> t \<in> T"
    unfolding c client_times_Cons by auto
  show ?case
    unfolding c using Cons.prems(1) here
    by (auto split: option.splits intro!: Cons.IH[OF _ sub] tl)
qed




text \<open>
  Claim C2, on the code. For a package of \<^verbatim>\<open>process_IOCs_exact\<close> the loop over
  \<^verbatim>\<open>netUsageBaseline\<close> appends a detection and a timeline event; the loop over the
  database rows appends the detections only, its \<^verbatim>\<open>append_timeline\<close> calls being
  under \<^verbatim>\<open>elif procname in process_IOCs_implicit\<close>: the timeline stays empty.
\<close>

theorem exact_database_record_is_not_fed_to_timeline:
  "datausage_loop [(Some 0, Some 60, Some ''BackupAgent'', None, Some 7, Some 120)] init_checker =
     \<lparr>timeline = [],
      detections =
        [(978307200, [(''exact'', IdentifierMatch ''NetFirst'' ''BackupAgent'')]),
         (978307260, [(''exact'', IdentifierMatch ''NetTimestamp'' ''BackupAgent'')]),
         (978307320, [(''exact'', IdentifierMatch ''NetTimestamp2'' ''BackupAgent'')])]\<rparr>
   \<and> baseline_loop [(''BackupAgent'', Some 978307200)] init_checker =
     \<lparr>timeline = [(978307200, [(''NetUsage'', ''BackupAgent'')])],
      detections = [(978307200, [(''exact'', IdentifierMatch ''NetUsage'' ''BackupAgent'')])]\<rparr>"
  by (simp add: init_checker_def name_in_def process_IOCs_exact_def process_IOCs_implicit_def
      append_timeline_def append_detection_def append_map_def cocoa_delta_def Let_def)

section \<open>The detections of a scan\<close>

text \<open>Every append of the collectors and of \<^verbatim>\<open>run_heuristics\<close> keeps the invariant
  \<open>checker_ok\<close>.\<close>

lemma in_set_updateD:
  "(k', v') \<in> set (AList.update k v al) \<Longrightarrow> (k', v') \<in> set al \<or> (k', v') = (k, v)"
  by (induction al) (auto split: if_splits)

lemma append_map_all:
  assumes "list_all (\<lambda>(ts, xs). list_all P xs) m" and "P x"
  shows "list_all (\<lambda>(ts, xs). list_all P xs) (append_map ts x m)"
proof (cases "map_of m ts")
  case None
  with assms show ?thesis by (simp add: append_map_def)
next
  case (Some items)
  then have "(ts, items) \<in> set m" by (rule map_of_SomeD)
  with assms(1) have "list_all P items" by (auto simp: list_all_iff)
  with assms have "\<And>k v. (k, v) \<in> set (AList.update ts (items @ [x]) m) \<Longrightarrow> list_all P v"
    by (auto dest!: in_set_updateD simp: list_all_iff)
  with Some show ?thesis
    by (auto simp: append_map_def list_all_iff)
qed

lemma checker_ok_append_timeline:
  "checker_ok self \<Longrightarrow> fst event \<in> set known_types \<Longrightarrow> checker_ok (append_timeline ts event self)"
  by (simp add: checker_ok_def timeline_ok_def append_timeline_def append_map_all)

lemma checker_ok_append_detection:
  "checker_ok self \<Longrightarrow> detection_ok d \<Longrightarrow> checker_ok (append_detection ts d self)"
  by (simp add: checker_ok_def registry_ok_def append_detection_def append_map_all)

lemma detection_ok_exact: "detection_ok (''exact'', IdentifierMatch source ident)"
  by (simp add: detection_ok_def)

lemma net_types_known: "event_type \<in> set net_types \<Longrightarrow> event_type \<in> set known_types"
  by (auto simp: net_types_def known_types_def)

lemma checker_ok_append_stat_events:
  "checker_ok self \<Longrightarrow> checker_ok (append_stat_events stats rel_path self)"
  by (simp add: append_stat_events_def Let_def checker_ok_append_timeline known_types_def)

lemma checker_ok_sms_loop: "checker_ok self \<Longrightarrow> checker_ok (sms_loop img root_path roots self)"
  by (induction roots arbitrary: self)
     (auto simp: Let_def checker_ok_append_stat_events split: option.splits)

lemma checker_ok_plists_loop: "checker_ok self \<Longrightarrow> checker_ok (plists_loop img root_path ks self)"
  by (induction ks arbitrary: self)
     (auto simp: Let_def checker_ok_append_stat_events split: option.splits)

lemma checker_ok_baseline_loop: "checker_ok self \<Longrightarrow> checker_ok (baseline_loop baseline self)"
proof (induction baseline arbitrary: self)
  case Nil
  then show ?case by simp
next
  case (Cons x baseline)
  obtain package whn where x: "x = (package, whn)" by (cases x) auto
  have known: "''NetUsage'' \<in> set known_types" by (simp add: known_types_def)
  show ?case
    unfolding x using Cons.prems known
    by (auto split: option.splits
        intro!: Cons.IH checker_ok_append_timeline checker_ok_append_detection detection_ok_exact)
qed

lemma checker_ok_datausage_loop: "checker_ok self \<Longrightarrow> checker_ok (datausage_loop rows self)"
  by (rule datausage_loop_inv[where T = UNIV])
     (auto intro!: checker_ok_append_timeline checker_ok_append_detection detection_ok_exact
        net_types_known)

lemma checker_ok_clients_loop: "checker_ok self \<Longrightarrow> checker_ok (clients_loop clients self)"
  by (rule clients_loop_inv[where T = UNIV])
     (auto intro!: checker_ok_append_timeline simp: known_types_def)

lemma checker_ok_collectors:
  assumes "checker_ok self"
  shows "checker_ok (check_analytics_data img root_path
           (check_system_plists img root_path (check_sms_attachments img root_path self)))"
proof -
  have 1: "checker_ok (check_sms_attachments img root_path self)"
    using assms by (simp add: check_sms_attachments_def checker_ok_sms_loop)
  then have 2: "checker_ok (check_system_plists img root_path (check_sms_attachments img root_path self))"
    by (simp add: check_system_plists_def checker_ok_plists_loop)
  have a: "checker_ok (check_osanalytics img root_path s)" if "checker_ok s" for s
    using that by (auto simp: check_osanalytics_def Let_def checker_ok_baseline_loop split: option.splits)
  have b: "checker_ok (check_datausage img root_path s)" if "checker_ok s" for s
    using that by (auto simp: check_datausage_def Let_def checker_ok_datausage_loop split: option.splits)
  have c: "checker_ok (check_locationd_clients img root_path s)" if "checker_ok s" for s
    using that by (auto simp: check_locationd_clients_def Let_def checker_ok_clients_loop split: option.splits)
  show ?thesis
    unfolding check_analytics_data_def by (intro a b c 2)
qed

lemma expanded_timeline_known:
  assumes "timeline_ok tmap" and "e \<in> set (expanded_timeline tmap)"
  shows "\<not> unknown_event e"
proof -
  from assms(2) have "\<exists>k items. map_of tmap k = Some items \<and> snd e \<in> set items"
    by (auto simp: expanded_timeline_def split: option.splits; metis)
  then obtain k items where "map_of tmap k = Some items" and "snd e \<in> set items"
    by blast
  then have "(k, items) \<in> set tmap" by (auto dest: map_of_SomeD)
  with assms(1) \<open>snd e \<in> set items\<close> show ?thesis
    by (auto simp: timeline_ok_def list_all_iff unknown_event_def)
qed

lemma window_at_subset: "set (window_at expanded i) \<subseteq> set expanded"
  unfolding window_at_takeWhile by (auto dest!: set_takeWhileD in_set_takeD in_set_dropD)

lemma checker_ok_run_heuristics:
  assumes "checker_ok self" and "\<not> list_ex unknown_event w"
    and "run_heuristics w self = Inr (r, self')"
  shows "checker_ok self'"
proof -
  from assms(3) have "w \<noteq> []" by (auto simp: run_heuristics_def)
  have "detection_ok (''heuristics'', EventWindow w)"
    using assms(2) by (simp add: detection_ok_def)
  then have "checker_ok (append_detection (fst (hd w)) (''heuristics'', EventWindow w) self)"
    using assms(1) by (simp add: checker_ok_append_detection)
  with assms(1,3) show ?thesis
    unfolding run_heuristics_spec[OF \<open>w \<noteq> []\<close>] by (auto split: if_splits)
qed

lemma checker_ok_heuristics_loop:
  assumes "checker_ok self" and "\<forall>w\<in>set ws. \<not> list_ex unknown_event w"
    and "heuristics_loop ws self = Inr self'"
  shows "checker_ok self'"
  using assms
proof (induction ws arbitrary: self)
  case Nil
  then show ?case by simp
next
  case (Cons w ws)
  from Cons.prems(3) obtain r self1 where step: "run_heuristics w self = Inr (r, self1)"
    and rest: "heuristics_loop ws self1 = Inr self'"
    by (auto split: sum.splits)
  have "checker_ok self1"
    using Cons.prems(1,2) step by (auto intro: checker_ok_run_heuristics)
  then show ?case
    using Cons.prems(2) rest by (auto intro: Cons.IH)
qed

lemma checker_ok_scan_filesystem:
  assumes "checker_ok self" and "scan_filesystem img root_path self = Inr self'"
  shows "checker_ok self'"
proof -
  let ?self3 = "check_analytics_data img root_path
           (check_system_plists img root_path (check_sms_attachments img root_path self))"
  let ?expanded = "expanded_timeline (timeline ?self3)"
  have ok3: "checker_ok ?self3"
    using assms(1) by (rule checker_ok_collectors)
  from assms(2) have loop: "heuristics_loop (evaluated_windows ?expanded) ?self3 = Inr self'"
    by (simp add: scan_filesystem_def sliding_window_def Let_def split: if_splits)
  have "\<forall>w\<in>set (evaluated_windows ?expanded). \<not> list_ex unknown_event w"
  proof
    fix w assume "w \<in> set (evaluated_windows ?expanded)"
    then obtain i where "w = window_at ?expanded i"
      by (auto simp: evaluated_windows_def)
    then have "set w \<subseteq> set ?expanded"
      by (simp add: window_at_subset)
    moreover have "timeline_ok (timeline ?self3)"
      using ok3 by (simp add: checker_ok_def)
    ultimately show "\<not> list_ex unknown_event w"
      using expanded_timeline_known by (auto simp: list_ex_iff)
  qed
  from ok3 this loop show ?thesis
    by (rule checker_ok_heuristics_loop)
qed

lemma detection_ok_renders:
  assumes "detection_ok d"
  shows "(fst d = ''exact'' \<or> fst d = ''heuristics'') \<and> (\<exists>s. detection_to_string d = Inr (Some s))"
proof (cases "snd d")
  case (IdentifierMatch source ident)
  with assms show ?thesis
    by (simp add: detection_ok_def detection_to_string_def)
next
  case (EventWindow w)
  with assms have d: "d = (''heuristics'', EventWindow w)" and "\<not> list_ex unknown_event w"
    by (auto simp: detection_ok_def prod_eq_iff)
  then have "find unknown_event w = None"
    by (auto simp: find_None_iff list_ex_iff)
  then show ?thesis
    unfolding d by (simp add: detection_to_string_def events_to_string_find)
qed

lemma checker_ok_init: "checker_ok init_checker"
  by (simp add: checker_ok_def init_checker_def timeline_ok_def registry_ok_def)

text \<open>
  Claim C10. After \<^verbatim>\<open>scan_filesystem\<close> on a fresh checker, every detection of the
  registry is tagged \<open>exact\<close> or \<open>heuristics\<close> and \<^verbatim>\<open>detection_to_string\<close> returns
  a string for it (the windows of the heuristic detections hold events of known types only,
  so the RuntimeError of the formatter is not reached); for a tuple with any other tag the
  method falls through and returns no value.
\<close>

theorem every_registry_entry_can_be_rendered:
  assumes "scan_filesystem img root_path init_checker = Inr self'"
  shows "(\<forall>(ts, ds)\<in>set (detections self'). \<forall>d\<in>set ds.
            (fst d = ''exact'' \<or> fst d = ''heuristics'') \<and>
            (\<exists>s. detection_to_string d = Inr (Some s)))
     \<and> (tag \<noteq> ''exact'' \<and> tag \<noteq> ''heuristics'' \<longrightarrow> detection_to_string (tag, ev) = Inr None)"
proof -
  have "checker_ok self'"
    using checker_ok_init assms by (rule checker_ok_scan_filesystem)
  then have "\<forall>(ts, ds)\<in>set (detections self'). \<forall>d\<in>set ds. detection_ok d"
    by (auto simp: checker_ok_def registry_ok_def list_all_iff)
  then show ?thesis
    using detection_ok_renders by (fastforce simp: detection_to_string_def)
qed



text \<open>An image with the three property lists of \<^verbatim>\<open>_check_system_plists\<close> (nine file
  events) and a network baseline of two packages, one of them \<open>BackupAgent\<close>: the scan ends
  with one exact and one heuristic detection.\<close>

lemmas collect_eval =
  check_sms_attachments_def check_system_plists_def check_analytics_data_def
  check_osanalytics_def check_datausage_def check_locationd_clients_def
  plist_files_def paths_def os_path_join_def str_remove_def lstrip_slash_def str_split_def
  append_stat_events_def append_timeline_def append_detection_def append_map_def
  process_IOCs_exact_def process_IOCs_implicit_def init_checker_def Let_def

theorem every_registry_entry_can_be_rendered_witness:
  "\<exists>self'.
     scan_filesystem
       \<lparr>isdir = (\<lambda>p. True), exists = (\<lambda>p. True), walk = (\<lambda>p. []),
        stat = (\<lambda>p. Some \<lparr>st_mtime = 100, st_ctime = 100, st_birthtime = None\<rparr>),
        osanalytics = (\<lambda>p. Some (Some [(''nehelper'', Some 101), (''BackupAgent'', Some 102)])),
        datausage = (\<lambda>p. None), locationd_clients = (\<lambda>p. None)\<rparr>
       ''/mnt'' init_checker = Inr self'
     \<and> map fst (detections self') = [102, 100]
     \<and> list_all (\<lambda>(ts, ds). list_all (\<lambda>d. \<exists>s. detection_to_string d = Inr (Some s)) ds)
          (detections self')"
proof -
  let ?img = "\<lparr>isdir = (\<lambda>p. True), exists = (\<lambda>p. True), walk = (\<lambda>p. []),
        stat = (\<lambda>p. Some \<lparr>st_mtime = 100, st_ctime = 100, st_birthtime = None\<rparr>),
        osanalytics = (\<lambda>p. Some (Some [(''nehelper'', Some 101), (''BackupAgent'', Some 102)])),
        datausage = (\<lambda>p. None), locationd_clients = (\<lambda>p. None)\<rparr>"
  let ?files = "[(''M'', ''Preferences/com.apple.locationd.StatusBarIconManager.plist''),
       (''C'', ''Preferences/com.apple.locationd.StatusBarIconManager.plist''),
       (''B'', ''Preferences/com.apple.locationd.StatusBarIconManager.plist''),
       (''M'', ''Preferences/com.apple.imservice.ids.FaceTime.plist''),
       (''C'', ''Preferences/com.apple.imservice.ids.FaceTime.plist''),
       (''B'', ''Preferences/com.apple.imservice.ids.FaceTime.plist''),
       (''M'', ''Preferences/com.apple.ImageIO.plist''),
       (''C'', ''Preferences/com.apple.ImageIO.plist''),
       (''B'', ''Preferences/com.apple.ImageIO.plist'')]"
  let ?self3 = "\<lparr>timeline = [(100, ?files), (101, [(''NetUsage'', ''nehelper'')]),
         (102, [(''NetUsage'', ''BackupAgent'')])],
       detections = [(102, [(''exact'', IdentifierMatch ''NetUsage'' ''BackupAgent'')])]\<rparr>"
  let ?w = "map (Pair 100) ?files @ [(101, ''NetUsage'', ''nehelper'')]"
  let ?expanded = "?w @ [(102, ''NetUsage'', ''BackupAgent'')]"
  have collect: "check_analytics_data ?img ''/mnt''
      (check_system_plists ?img ''/mnt'' (check_sms_attachments ?img ''/mnt'' init_checker)) = ?self3"
    by (simp add: collect_eval)
  have expanded: "expanded_timeline (timeline ?self3) = ?expanded"
    by (simp add: expanded_timeline_def)
  have windows: "evaluated_windows ?expanded = [?w]"
    by (simp add: evaluated_windows_def anchors_def events_max_def window_at_takeWhile
        within_span_def time_delta_max_def)
  have run: "run_heuristics ?w ?self3 =
      Inr (PyNone, ?self3\<lparr>detections :=
        [(102, [(''exact'', IdentifierMatch ''NetUsage'' ''BackupAgent'')]),
         (100, [(''heuristics'', EventWindow ?w)])]\<rparr>)"
    by (simp add: run_heuristics_def attachments_marker_def file_types_def net_types_def
        detection_threshold_def append_detection_def append_map_def)
  have scan: "scan_filesystem ?img ''/mnt'' init_checker =
      Inr (?self3\<lparr>detections :=
        [(102, [(''exact'', IdentifierMatch ''NetUsage'' ''BackupAgent'')]),
         (100, [(''heuristics'', EventWindow ?w)])]\<rparr>)"
    unfolding scan_filesystem_def Let_def collect expanded sliding_window_def windows
    using run by simp
  show ?thesis
    using every_registry_entry_can_be_rendered [OF scan] scan
    by (auto simp: list_all_iff)
qed

end
